theory Spec2Isabelle
  imports Main "HOL-Library.Word"
begin

section \<open>Text encoding detection and transcoding (textfile/common/encoding.ts)\<close>

text \<open>
  A shallow embedding of \<^verbatim>\<open>src/vs/workbench/services/textfile/common/encoding.ts\<close>.
  Conventions:
  \<^item> a \<^verbatim>\<open>VSBuffer\<close> is the list of its bytes; \<^verbatim>\<open>VSBuffer | null\<close> is an option;
  \<^item> a JavaScript \<^verbatim>\<open>number\<close> that counts bytes is an \<open>int\<close>, a loop index a \<open>nat\<close>;
  \<^item> an encoding label is a \<open>string\<close>, \<^verbatim>\<open>string | null\<close> a \<open>string option\<close>;
  \<^item> a promise is modelled by the value it resolves to;
  \<^item> the libraries outside the file (the jschardet classifier, the iconv-lite encoder)
    are parameters of the functions that call them.
\<close>

subsection \<open>Constants\<close>

type_synonym byte = "8 word"
type_synonym VSBuffer = "byte list"

definition UTF8 :: string where
  "UTF8 = ''utf8''"

definition UTF8_with_bom :: string where
  "UTF8_with_bom = ''utf8bom''"

definition UTF16be :: string where
  "UTF16be = ''utf16be''"

definition UTF16le :: string where
  "UTF16le = ''utf16le''"

definition UTF16be_BOM :: "byte list" where
  "UTF16be_BOM = [0xFE, 0xFF]"

definition UTF16le_BOM :: "byte list" where
  "UTF16le_BOM = [0xFF, 0xFE]"

definition UTF8_BOM :: "byte list" where
  "UTF8_BOM = [0xEF, 0xBB, 0xBF]"

definition ZERO_BYTE_DETECTION_BUFFER_MAX_LEN :: nat where
  "ZERO_BYTE_DETECTION_BUFFER_MAX_LEN = 512"

definition NO_ENCODING_GUESS_MIN_BYTES :: int where
  "NO_ENCODING_GUESS_MIN_BYTES = 512"

definition AUTO_ENCODING_GUESS_MIN_BYTES :: int where
  "AUTO_ENCODING_GUESS_MIN_BYTES = 512 * 8"

definition AUTO_ENCODING_GUESS_MAX_BYTES :: int where
  "AUTO_ENCODING_GUESS_MAX_BYTES = 512 * 128"

subsection \<open>Buffer primitives\<close>

text \<open>
  \<^verbatim>\<open>VSBuffer.readUInt8(offset)\<close> reads the underlying \<^verbatim>\<open>Uint8Array\<close> at the offset; past
  the end JavaScript yields \<^verbatim>\<open>undefined\<close>, which is \<open>None\<close> here and equal to no byte.
\<close>

definition readUInt8 :: "VSBuffer \<Rightarrow> nat \<Rightarrow> byte option" where
  "readUInt8 buffer offset = (if offset < length buffer then Some (buffer ! offset) else None)"

text \<open>
  \<^verbatim>\<open>VSBuffer.slice(0, end)\<close> follows \<^verbatim>\<open>Uint8Array.subarray\<close>: a negative end counts from the
  end of the buffer, and the result is clamped to the buffer.
\<close>

definition slice0 :: "VSBuffer \<Rightarrow> int \<Rightarrow> VSBuffer" where
  "slice0 buffer end_index =
     (if end_index < 0 then take (nat (int (length buffer) + end_index)) buffer
      else take (nat end_index) buffer)"

subsection \<open>BOM detector\<close>

definition detectEncodingByBOMFromBuffer :: "VSBuffer option \<Rightarrow> int \<Rightarrow> string option" where
  "detectEncodingByBOMFromBuffer buffer bytesRead =
     (case buffer of
        None \<Rightarrow> None
      | Some buf \<Rightarrow>
          if bytesRead < int (length UTF16be_BOM) then None
          else
            let b0 = readUInt8 buf 0;
                b1 = readUInt8 buf 1
            in
              if b0 = Some (UTF16be_BOM ! 0) \<and> b1 = Some (UTF16be_BOM ! 1) then Some UTF16be
              else if b0 = Some (UTF16le_BOM ! 0) \<and> b1 = Some (UTF16le_BOM ! 1) then Some UTF16le
              else if bytesRead < int (length UTF8_BOM) then None
              else
                let b2 = readUInt8 buf 2
                in
                  if b0 = Some (UTF8_BOM ! 0) \<and> b1 = Some (UTF8_BOM ! 1) \<and> b2 = Some (UTF8_BOM ! 2)
                  then Some UTF8_with_bom
                  else None)"

subsection \<open>Statistical guesser\<close>

text \<open>
  Labels are ASCII strings. \<^verbatim>\<open>String.prototype.toLowerCase\<close> is modelled on the letters
  \<^verbatim>\<open>A\<close> to \<^verbatim>\<open>Z\<close>, every other character is left as it is.
\<close>

definition lowerChar :: "char \<Rightarrow> char" where
  "lowerChar c =
     (case map_of (zip ''ABCDEFGHIJKLMNOPQRSTUVWXYZ'' ''abcdefghijklmnopqrstuvwxyz'') c of
        Some l \<Rightarrow> l
      | None \<Rightarrow> c)"

definition toLowerCase :: "string \<Rightarrow> string" where
  "toLowerCase s = map lowerChar s"

text \<open>The character class \<^verbatim>\<open>[a-zA-Z0-9]\<close>.\<close>

definition isAlphaNumeric :: "char \<Rightarrow> bool" where
  "isAlphaNumeric c \<longleftrightarrow>
     c \<in> set ''abcdefghijklmnopqrstuvwxyzABCDEFGHIJKLMNOPQRSTUVWXYZ0123456789''"

definition IGNORE_ENCODINGS :: "string list" where
  "IGNORE_ENCODINGS = [''ascii'', ''utf-16'', ''utf-32'']"

definition JSCHARDET_TO_ICONV_ENCODINGS :: "string \<rightharpoonup> string" where
  "JSCHARDET_TO_ICONV_ENCODINGS = map_of [(''ibm866'', ''cp866''), (''big5'', ''cp950'')]"

text \<open>\<^verbatim>\<open>encodingName.replace(/[^a-zA-Z0-9]/g, '').toLowerCase()\<close>\<close>

definition normalizedEncodingName :: "string \<Rightarrow> string" where
  "normalizedEncodingName encodingName = toLowerCase (filter isAlphaNumeric encodingName)"

text \<open>
  The table is a plain object literal and is read with \<^verbatim>\<open>[]\<close>, so a key that is not its
  own is looked up in \<^verbatim>\<open>Object.prototype\<close>. A value read from the table, and so a value
  that \<^verbatim>\<open>toIconvLiteEncoding\<close> returns under the type \<^verbatim>\<open>string\<close>, is a string or a member
  of \<^verbatim>\<open>Object.prototype\<close> (a function, or the prototype itself for \<^verbatim>\<open>__proto__\<close>), which is
  kept by its name.
\<close>

datatype encoding_value = Name string | ObjectMember string

definition OBJECT_PROTOTYPE_MEMBERS :: "string list" where
  "OBJECT_PROTOTYPE_MEMBERS =
     [''constructor'', ''hasOwnProperty'', ''isPrototypeOf'', ''propertyIsEnumerable'',
      ''toLocaleString'', ''toString'', ''valueOf'', ''__defineGetter__'', ''__defineSetter__'',
      ''__lookupGetter__'', ''__lookupSetter__'', ''__proto__'']"

text \<open>\<^verbatim>\<open>JSCHARDET_TO_ICONV_ENCODINGS[name]\<close>: \<open>None\<close> is \<^verbatim>\<open>undefined\<close>.\<close>

definition table_get :: "string \<Rightarrow> encoding_value option" where
  "table_get name =
     (case JSCHARDET_TO_ICONV_ENCODINGS name of
        Some v \<Rightarrow> Some (Name v)
      | None \<Rightarrow> if name \<in> set OBJECT_PROTOTYPE_MEMBERS then Some (ObjectMember name) else None)"

text \<open>
  \<^verbatim>\<open>mapped || normalizedEncodingName\<close>: an absent or empty entry gives the normalized name;
  an inherited member is an object and so truthy.
\<close>

definition toIconvLiteEncoding :: "string \<Rightarrow> encoding_value" where
  "toIconvLiteEncoding encodingName =
     (let normalized = normalizedEncodingName encodingName;
          mapped = table_get normalized
      in case mapped of
           Some (Name m) \<Rightarrow> if m \<noteq> [] then Name m else Name normalized
         | Some (ObjectMember m) \<Rightarrow> ObjectMember m
         | None \<Rightarrow> Name normalized)"

text \<open>
  The result of \<^verbatim>\<open>jschardet.detect\<close>: \<open>None\<close> for no result at all, otherwise an object
  whose \<^verbatim>\<open>encoding\<close> is a label or null (the confidence is never read).
\<close>

datatype IDetectedMap = IDetectedMap (guessed_encoding: "string option")

type_synonym jschardet = "VSBuffer \<Rightarrow> IDetectedMap option"

definition guessEncodingByBuffer :: "jschardet \<Rightarrow> VSBuffer \<Rightarrow> encoding_value option" where
  "guessEncodingByBuffer detect buffer =
     (let limitedBuffer = slice0 buffer AUTO_ENCODING_GUESS_MAX_BYTES;
          guessed = detect limitedBuffer
      in case guessed of
           None \<Rightarrow> None
         | Some g \<Rightarrow>
             (case guessed_encoding g of
                None \<Rightarrow> None
              | Some label \<Rightarrow>
                  if label = [] then None
                  else
                    let enc = toLowerCase label
                    in if enc \<in> set IGNORE_ENCODINGS then None
                       else Some (toIconvLiteEncoding label)))"

subsection \<open>Zero-byte heuristic and the detection orchestrator\<close>

record scan_flags =
  couldBeUTF16LE :: bool
  couldBeUTF16BE :: bool
  containsZeroByte :: bool

definition isZeroByte :: "VSBuffer \<Rightarrow> nat \<Rightarrow> bool" where
  "isZeroByte buffer i \<longleftrightarrow> readUInt8 buffer i = Some 0"

definition isEndian :: "nat \<Rightarrow> bool" where
  "isEndian i \<longleftrightarrow> i mod 2 = 1"

text \<open>The three flag updates of one loop iteration, in the order of the source.\<close>

definition scan_step :: "VSBuffer \<Rightarrow> nat \<Rightarrow> scan_flags \<Rightarrow> scan_flags" where
  "scan_step buffer i st =
     (let st1 = (if isZeroByte buffer i then st\<lparr>containsZeroByte := True\<rparr> else st);
          st2 = (if couldBeUTF16LE st1 \<and>
                    (isEndian i \<and> \<not> isZeroByte buffer i \<or> \<not> isEndian i \<and> isZeroByte buffer i)
                 then st1\<lparr>couldBeUTF16LE := False\<rparr> else st1);
          st3 = (if couldBeUTF16BE st2 \<and>
                    (isEndian i \<and> isZeroByte buffer i \<or> \<not> isEndian i \<and> \<not> isZeroByte buffer i)
                 then st2\<lparr>couldBeUTF16BE := False\<rparr> else st2)
      in st3)"

text \<open>The \<^verbatim>\<open>for\<close> loop of \<^verbatim>\<open>detectEncodingFromBuffer\<close>, with its \<^verbatim>\<open>break\<close>.\<close>

function zeroByteScan :: "VSBuffer \<Rightarrow> int \<Rightarrow> nat \<Rightarrow> scan_flags \<Rightarrow> scan_flags" where
  "zeroByteScan buffer bytesRead i st =
     (if int i < bytesRead \<and> i < ZERO_BYTE_DETECTION_BUFFER_MAX_LEN then
        let st' = scan_step buffer i st
        in if isZeroByte buffer i \<and> \<not> couldBeUTF16LE st' \<and> \<not> couldBeUTF16BE st' then st'
           else zeroByteScan buffer bytesRead (i + 1) st'
      else st)"
  by pat_completeness auto
termination
  by (relation "measure (\<lambda>(buffer, bytesRead, i, st). ZERO_BYTE_DETECTION_BUFFER_MAX_LEN - i)") auto

declare zeroByteScan.simps [simp del]

text \<open>
  The same loop as the specification describes its outcome: every index of the window is
  visited, there is no early exit.
\<close>

function zeroByteScan_full :: "VSBuffer \<Rightarrow> int \<Rightarrow> nat \<Rightarrow> scan_flags \<Rightarrow> scan_flags" where
  "zeroByteScan_full buffer bytesRead i st =
     (if int i < bytesRead \<and> i < ZERO_BYTE_DETECTION_BUFFER_MAX_LEN then
        zeroByteScan_full buffer bytesRead (i + 1) (scan_step buffer i st)
      else st)"
  by pat_completeness auto
termination
  by (relation "measure (\<lambda>(buffer, bytesRead, i, st). ZERO_BYTE_DETECTION_BUFFER_MAX_LEN - i)") auto

declare zeroByteScan_full.simps [simp del]

definition initial_flags :: scan_flags where
  "initial_flags = \<lparr>couldBeUTF16LE = True, couldBeUTF16BE = True, containsZeroByte = False\<rparr>"

text \<open>The block "Handle case of 0-byte included": the new encoding and \<^verbatim>\<open>seemsBinary\<close>.\<close>

definition zeroByteDecision :: "string option \<Rightarrow> scan_flags \<Rightarrow> string option \<times> bool" where
  "zeroByteDecision encoding st =
     (if containsZeroByte st then
        if couldBeUTF16LE st then (Some UTF16le, False)
        else if couldBeUTF16BE st then (Some UTF16be, False)
        else (encoding, True)
      else (encoding, False))"

text \<open>
  The second step of \<^verbatim>\<open>detectEncodingFromBuffer\<close>: from the encoding found by the BOM
  detector to the pair of \<^verbatim>\<open>encoding\<close> and \<^verbatim>\<open>seemsBinary\<close> before the guess.
\<close>

definition zeroByteHeuristic :: "string option \<Rightarrow> VSBuffer option \<Rightarrow> int \<Rightarrow> string option \<times> bool" where
  "zeroByteHeuristic encoding buffer bytesRead =
     (case buffer of
        Some buf \<Rightarrow>
          if encoding \<noteq> Some UTF16be \<and> encoding \<noteq> Some UTF16le
          then zeroByteDecision encoding (zeroByteScan buf bytesRead 0 initial_flags)
          else (encoding, False)
      | None \<Rightarrow> (encoding, False))"

record IDetectedEncodingResult =
  encoding :: "encoding_value option"
  seemsBinary :: bool

text \<open>
  An omitted \<^verbatim>\<open>autoGuessEncoding\<close> is \<open>False\<close>. With a guess the source returns a promise of
  the result, which is modelled by the result. The encodings of the first two steps are
  the string constants; the guess is whatever \<^verbatim>\<open>guessEncodingByBuffer\<close> returns.
\<close>

definition detectEncodingFromBuffer ::
  "jschardet \<Rightarrow> VSBuffer option \<Rightarrow> int \<Rightarrow> bool \<Rightarrow> IDetectedEncodingResult" where
  "detectEncodingFromBuffer detect buffer bytesRead autoGuessEncoding =
     (let encoding0 = detectEncodingByBOMFromBuffer buffer bytesRead;
          (encoding1, seemsBinary1) = zeroByteHeuristic encoding0 buffer bytesRead
      in case buffer of
           Some buf \<Rightarrow>
             if autoGuessEncoding \<and> \<not> seemsBinary1 \<and> encoding1 = None
             then \<lparr>encoding = guessEncodingByBuffer detect (slice0 buf bytesRead), seemsBinary = False\<rparr>
             else \<lparr>encoding = map_option Name encoding1, seemsBinary = seemsBinary1\<rparr>
         | None \<Rightarrow> \<lparr>encoding = map_option Name encoding1, seemsBinary = seemsBinary1\<rparr>)"

subsection \<open>Canonical names\<close>

text \<open>
  \<^verbatim>\<open>enc.match(/windows(\d+)/)\<close>: the leftmost place where \<^verbatim>\<open>windows\<close> is followed by a
  digit; the result is the group, the longest run of digits there.
\<close>

definition isDigit :: "char \<Rightarrow> bool" where
  "isDigit c \<longleftrightarrow> c \<in> set ''0123456789''"

fun matchWindows :: "string \<Rightarrow> string option" where
  "matchWindows [] = None"
| "matchWindows (c # cs) =
     (let digits = takeWhile isDigit (drop 7 (c # cs))
      in if take 7 (c # cs) = ''windows'' \<and> digits \<noteq> [] then Some digits
         else matchWindows cs)"

definition toCanonicalName :: "string \<Rightarrow> string" where
  "toCanonicalName enc =
     (if enc = ''shiftjis'' then ''shift-jis''
      else if enc = ''utf16le'' then ''utf-16le''
      else if enc = ''utf16be'' then ''utf-16be''
      else if enc = ''big5hkscs'' then ''big5-hkscs''
      else if enc = ''eucjp'' then ''euc-jp''
      else if enc = ''euckr'' then ''euc-kr''
      else if enc = ''koi8r'' then ''koi8-r''
      else if enc = ''koi8u'' then ''koi8-u''
      else if enc = ''macroman'' then ''x-mac-roman''
      else if enc = ''utf8bom'' then ''utf8''
      else
        case matchWindows enc of
          Some m1 \<Rightarrow> ''windows-'' @ m1
        | None \<Rightarrow> enc)"

subsection \<open>Encode stream adapter\<close>

definition toNodeEncoding :: "string option \<Rightarrow> string" where
  "toNodeEncoding enc =
     (case enc of
        None \<Rightarrow> UTF8
      | Some e \<Rightarrow> if e = UTF8_with_bom then UTF8 else e)"

text \<open>The optional argument \<^verbatim>\<open>options?: { addBOM?: boolean }\<close>.\<close>

record encode_options =
  addBOM :: "bool option"

text \<open>
  The iconv-lite library: \<^verbatim>\<open>getEncoder\<close> makes an encoder (its state is \<open>'e\<close>),
  \<^verbatim>\<open>encoder.write\<close> returns bytes and the next state, \<^verbatim>\<open>encoder.end\<close> the
  leftovers, if any.
\<close>

record 'e iconv =
  getEncoder :: "string \<Rightarrow> encode_options option \<Rightarrow> 'e"
  encoder_write :: "'e \<Rightarrow> string \<Rightarrow> VSBuffer \<times> 'e"
  encoder_end :: "'e \<Rightarrow> VSBuffer option"

text \<open>
  The closure returned by \<^verbatim>\<open>toEncodeReadable\<close>: the text source is the list of the chunks
  it still yields (after the last one \<^verbatim>\<open>readable.read()\<close> returns null), with the encoder
  and the two variables \<^verbatim>\<open>bytesRead\<close> and \<^verbatim>\<open>done\<close>.
\<close>

record 'e encode_session =
  es_readable :: "string list"
  es_encoding :: string
  es_options :: "encode_options option"
  es_encoder :: 'e
  es_bytesRead :: int
  es_done :: bool

definition toEncodeReadable ::
  "'e iconv \<Rightarrow> string list \<Rightarrow> string \<Rightarrow> encode_options option \<Rightarrow> 'e encode_session" where
  "toEncodeReadable ic readable enc options =
     \<lparr>es_readable = readable,
      es_encoding = enc,
      es_options = options,
      es_encoder = getEncoder ic (toNodeEncoding (Some enc)) options,
      es_bytesRead = 0,
      es_done = False\<rparr>"

text \<open>\<^verbatim>\<open>options?.addBOM\<close> as a condition.\<close>

definition addBOM_requested :: "encode_options option \<Rightarrow> bool" where
  "addBOM_requested options =
     (case options of
        None \<Rightarrow> False
      | Some opts \<Rightarrow> (case addBOM opts of None \<Rightarrow> False | Some b \<Rightarrow> b))"

text \<open>One call of \<^verbatim>\<open>read()\<close>: the buffer returned (\<open>None\<close> for null) and the session after it.\<close>

definition encode_read :: "'e iconv \<Rightarrow> 'e encode_session \<Rightarrow> VSBuffer option \<times> 'e encode_session" where
  "encode_read ic s =
     (if es_done s then (None, s)
      else
        case es_readable s of
          [] \<Rightarrow>
            (let s' = s\<lparr>es_done := True\<rparr>;
                 leftovers =
                   (case encoder_end ic (es_encoder s') of
                      Some l \<Rightarrow> if length l > 0 then Some l else None
                    | None \<Rightarrow> None)
             in
               if es_bytesRead s' = 0 \<and> addBOM_requested (es_options s') then
                 if es_encoding s' = UTF8 \<or> es_encoding s' = UTF8_with_bom then (Some UTF8_BOM, s')
                 else if es_encoding s' = UTF16be then (Some UTF16be_BOM, s')
                 else if es_encoding s' = UTF16le then (Some UTF16le_BOM, s')
                 else (leftovers, s')
               else (leftovers, s'))
        | chunk # rest \<Rightarrow>
            (let (bytes, encoder') = encoder_write ic (es_encoder s) chunk
             in (Some bytes,
                 s\<lparr>es_readable := rest,
                   es_encoder := encoder',
                   es_bytesRead := es_bytesRead s + int (length chunk)\<rparr>)))"

subsection \<open>Decode stream adapter: the detection threshold\<close>

text \<open>
  The options of \<^verbatim>\<open>toDecodeStream\<close>; \<^verbatim>\<open>minBytesRequiredForDetection\<close> is optional. The
  hook \<^verbatim>\<open>overwriteEncoding\<close> takes the detected encoding to the final one.
\<close>

record IDecodeStreamOptions =
  guessEncoding :: bool
  minBytesRequiredForDetection :: "int option"
  overwriteEncoding :: "string option \<Rightarrow> string"

text \<open>
  The values of the expression \<^verbatim>\<open>a ?? b\<close> in line 43 are numbers or booleans; a number is
  truthy when it is not zero.
\<close>

datatype js_value = JSNumber int | JSBoolean bool

fun truthy :: "js_value \<Rightarrow> bool" where
  "truthy (JSNumber n) = (n \<noteq> 0)"
| "truthy (JSBoolean b) = b"

definition nullish_coalesce :: "js_value option \<Rightarrow> js_value \<Rightarrow> js_value" where
  "nullish_coalesce a b = (case a of Some v \<Rightarrow> v | None \<Rightarrow> b)"

text \<open>
  Line 43 of the source. In JavaScript \<^verbatim>\<open>??\<close> binds tighter than \<^verbatim>\<open>? :\<close>, so
  \<^verbatim>\<open>a ?? b ? c : d\<close> is \<^verbatim>\<open>(a ?? b) ? c : d\<close>.
\<close>

definition toDecodeStream_minBytes :: "IDecodeStreamOptions \<Rightarrow> int" where
  "toDecodeStream_minBytes options =
     (if truthy (nullish_coalesce (map_option JSNumber (minBytesRequiredForDetection options))
                                  (JSBoolean (guessEncoding options)))
      then AUTO_ENCODING_GUESS_MIN_BYTES
      else NO_ENCODING_GUESS_MIN_BYTES)"

text \<open>
  The state of a session while no decoder exists: the chunks buffered and their byte count.
\<close>

record buffering_state =
  bufferedChunks :: "VSBuffer list"
  bytesBuffered :: int

text \<open>
  The \<^verbatim>\<open>data\<close> handler while no decoder exists: the chunk is buffered, and the second
  component tells whether \<^verbatim>\<open>createDecoder\<close> is now called (the session leaves buffering).
\<close>

definition onData_buffering ::
  "IDecodeStreamOptions \<Rightarrow> buffering_state \<Rightarrow> VSBuffer \<Rightarrow> buffering_state \<times> bool" where
  "onData_buffering options st chunk =
     (let st' = st\<lparr>bufferedChunks := bufferedChunks st @ [chunk],
                   bytesBuffered := bytesBuffered st + int (length chunk)\<rparr>
      in (st', bytesBuffered st' \<ge> toDecodeStream_minBytes options))"

subsection \<open>Auxiliary notions for the statements\<close>

text \<open>
  The window of the zero-byte scan: the indices for which the loop condition
  \<^verbatim>\<open>i < bytesRead && i < ZERO_BYTE_DETECTION_BUFFER_MAX_LEN\<close> holds.
\<close>

definition inWindow :: "int \<Rightarrow> nat \<Rightarrow> bool" where
  "inWindow bytesRead i \<longleftrightarrow> int i < bytesRead \<and> i < ZERO_BYTE_DETECTION_BUFFER_MAX_LEN"

text \<open>
  The labels that \<^verbatim>\<open>jschardet.detect\<close> returns. The library is a dependency outside the
  repository; these are the charset names of its probers and of its BOM and escape
  detection (version 3.1.4, with the names \<^verbatim>\<open>GB18030\<close> and \<^verbatim>\<open>MacCyrillic\<close> of earlier
  versions and the names of its state machines).
\<close>

definition JSCHARDET_LABELS :: "string list" where
  "JSCHARDET_LABELS =
     [''ascii'', ''UTF-8'', ''UTF-16LE'', ''UTF-16BE'', ''UTF-32LE'', ''UTF-32BE'',
      ''X-ISO-10646-UCS-4-3412'', ''X-ISO-10646-UCS-4-2143'',
      ''Big5'', ''GB2312'', ''GB18030'', ''EUC-TW'', ''x-euc-tw'', ''HZ-GB-2312'',
      ''ISO-2022-CN'', ''ISO-2022-JP'', ''ISO-2022-KR'', ''EUC-JP'', ''SHIFT_JIS'', ''Shift_JIS'',
      ''EUC-KR'', ''KOI8-R'', ''MacCyrillic'', ''x-mac-cyrillic'', ''IBM855'', ''IBM866'',
      ''ISO-8859-2'', ''ISO-8859-5'', ''ISO-8859-7'', ''ISO-8859-8'',
      ''windows-1250'', ''windows-1251'', ''windows-1252'', ''windows-1253'', ''windows-1255'',
      ''TIS-620'']"

text \<open>A classifier that gives the same answer for every buffer, for concrete evaluations.\<close>

definition constant_classifier :: "IDetectedMap option \<Rightarrow> jschardet" where
  "constant_classifier answer buffer = answer"

text \<open>A consumer that calls \<^verbatim>\<open>read()\<close> \<open>n\<close> times: the buffers it gets, in order.\<close>

fun encode_reads :: "'e iconv \<Rightarrow> nat \<Rightarrow> 'e encode_session \<Rightarrow> VSBuffer option list" where
  "encode_reads ic 0 s = []"
| "encode_reads ic (Suc n) s = (let (r, s') = encode_read ic s in r # encode_reads ic n s')"

section \<open>Properties\<close>

subsection \<open>Reading a prefix\<close>

lemma take2_eq:
  "take 2 buf = [x, y] \<longleftrightarrow> readUInt8 buf 0 = Some x \<and> readUInt8 buf (Suc 0) = Some y"
  by (cases buf; cases "tl buf") (auto simp: readUInt8_def numeral_2_eq_2)

lemma take3_eq:
  "take 3 buf = [x, y, z] \<longleftrightarrow>
     readUInt8 buf 0 = Some x \<and> readUInt8 buf (Suc 0) = Some y \<and> readUInt8 buf 2 = Some z"
  by (cases buf; cases "tl buf"; cases "tl (tl buf)") (auto simp: readUInt8_def numeral_3_eq_3)

subsection \<open>BOM detector\<close>

text \<open>
  Claim C3. For every buffer and \<^verbatim>\<open>bytesRead\<close>: a null buffer or \<^verbatim>\<open>bytesRead < 2\<close> gives
  none; first two bytes \<^verbatim>\<open>FE FF\<close> give UTF-16BE and \<^verbatim>\<open>FF FE\<close> give UTF-16LE, whatever
  follows; with neither marker and \<^verbatim>\<open>bytesRead < 3\<close> the result is none; otherwise it is
  UTF-8-with-BOM exactly when the first three bytes are \<^verbatim>\<open>EF BB BF\<close>, and none in all
  remaining cases.
\<close>

theorem detectEncodingByBOMFromBuffer_decision_table:
  "detectEncodingByBOMFromBuffer buffer bytesRead =
     (case buffer of
        None \<Rightarrow> None
      | Some buf \<Rightarrow>
          if bytesRead < 2 then None
          else if take 2 buf = [0xFE, 0xFF] then Some UTF16be
          else if take 2 buf = [0xFF, 0xFE] then Some UTF16le
          else if bytesRead < 3 then None
          else if take 3 buf = [0xEF, 0xBB, 0xBF] then Some UTF8_with_bom
          else None)"
  by (simp add: detectEncodingByBOMFromBuffer_def take2_eq take3_eq UTF16be_BOM_def
      UTF16le_BOM_def UTF8_BOM_def Let_def split: option.split)

subsection \<open>Canonical names\<close>

lemma matchWindows_digits: "\<forall>c \<in> set ds. isDigit c \<Longrightarrow> matchWindows ds = None"
  by (induction ds) (auto simp: isDigit_def Let_def)

lemma matchWindows_result: "matchWindows s = Some d \<Longrightarrow> d \<noteq> [] \<and> (\<forall>c \<in> set d. isDigit c)"
proof (induction s)
  case Nil
  then show ?case by simp
next
  case (Cons c cs)
  then show ?case
    by (auto simp: Let_def split: if_splits dest: set_takeWhileD)
qed

lemma matchWindows_canonical:
  assumes "\<forall>c \<in> set d. isDigit c"
  shows "matchWindows (''windows-'' @ d) = None"
  using assms matchWindows_digits [of d]
  by (cases d) (auto simp: Let_def isDigit_def)

lemma toCanonicalName_default:
  assumes "matchWindows w = None"
    and "w \<notin> set [''shiftjis'', ''utf16le'', ''utf16be'', ''big5hkscs'', ''eucjp'', ''euckr'',
                    ''koi8r'', ''koi8u'', ''macroman'', ''utf8bom'']"
  shows "toCanonicalName w = w"
  using assms by (simp add: toCanonicalName_def)

lemma toCanonicalName_windows:
  assumes "\<forall>c \<in> set d. isDigit c"
  shows "toCanonicalName (''windows-'' @ d) = ''windows-'' @ d"
proof (rule toCanonicalName_default)
  show "matchWindows (''windows-'' @ d) = None"
    using assms by (rule matchWindows_canonical)
  show "''windows-'' @ d \<notin> set [''shiftjis'', ''utf16le'', ''utf16be'', ''big5hkscs'', ''eucjp'',
      ''euckr'', ''koi8r'', ''koi8u'', ''macroman'', ''utf8bom'']"
    by simp
qed

text \<open>
  Claim C9. \<^verbatim>\<open>toCanonicalName\<close> is idempotent: for every string \<open>x\<close>, known label or not,
  \<^verbatim>\<open>toCanonicalName(toCanonicalName(x))\<close> equals \<^verbatim>\<open>toCanonicalName(x)\<close>.
\<close>

theorem toCanonicalName_idempotent: "toCanonicalName (toCanonicalName x) = toCanonicalName x"
proof (cases "x \<in> set [''shiftjis'', ''utf16le'', ''utf16be'', ''big5hkscs'', ''eucjp'', ''euckr'',
                    ''koi8r'', ''koi8u'', ''macroman'', ''utf8bom'']")
  case True
  then have "x = ''shiftjis'' \<or> x = ''utf16le'' \<or> x = ''utf16be'' \<or> x = ''big5hkscs''
    \<or> x = ''eucjp'' \<or> x = ''euckr'' \<or> x = ''koi8r'' \<or> x = ''koi8u'' \<or> x = ''macroman''
    \<or> x = ''utf8bom''"
    by simp
  then show ?thesis
    by (elim disjE) (simp_all add: toCanonicalName_def isDigit_def)
next
  case False
  show ?thesis
  proof (cases "matchWindows x")
    case None
    with False have "toCanonicalName x = x" by (rule toCanonicalName_default [rotated])
    then show ?thesis by simp
  next
    case (Some d)
    then have d: "\<forall>c \<in> set d. isDigit c" using matchWindows_result by blast
    have "toCanonicalName x = ''windows-'' @ d"
      using False Some by (simp add: toCanonicalName_def)
    then show ?thesis using toCanonicalName_windows [OF d] by simp
  qed
qed

subsection \<open>The zero-byte scan\<close>

lemma scan_step_flags:
  "containsZeroByte (scan_step buffer i st) = (containsZeroByte st \<or> isZeroByte buffer i)"
  "couldBeUTF16LE (scan_step buffer i st) = (couldBeUTF16LE st \<and> (isEndian i \<longleftrightarrow> isZeroByte buffer i))"
  "couldBeUTF16BE (scan_step buffer i st) = (couldBeUTF16BE st \<and> (isEndian i \<longleftrightarrow> \<not> isZeroByte buffer i))"
  by (auto simp: scan_step_def Let_def)

lemma scan_step_absorbing:
  fixes st :: scan_flags
  assumes "containsZeroByte st" "\<not> couldBeUTF16LE st" "\<not> couldBeUTF16BE st"
  shows "scan_step buffer i st = st"
  using assms by (cases st) (simp add: scan_step_def Let_def)

lemma zeroByteScan_full_absorbing:
  fixes st :: scan_flags
  assumes "containsZeroByte st" "\<not> couldBeUTF16LE st" "\<not> couldBeUTF16BE st"
  shows "zeroByteScan_full buffer bytesRead i st = st"
  using assms
proof (induction buffer bytesRead i st rule: zeroByteScan_full.induct)
  case (1 buffer bytesRead i st)
  then show ?case
    by (subst zeroByteScan_full.simps) (simp add: scan_step_absorbing)
qed

lemma zeroByteScan_eq_full:
  "zeroByteScan buffer bytesRead i st = zeroByteScan_full buffer bytesRead i st"
proof (induction buffer bytesRead i st rule: zeroByteScan.induct)
  case (1 buffer bytesRead i st)
  show ?case
  proof (cases "int i < bytesRead \<and> i < ZERO_BYTE_DETECTION_BUFFER_MAX_LEN")
    case False
    then show ?thesis
      by (subst zeroByteScan.simps, subst zeroByteScan_full.simps) auto
  next
    case inside: True
    let ?st' = "scan_step buffer i st"
    show ?thesis
    proof (cases "isZeroByte buffer i \<and> \<not> couldBeUTF16LE ?st' \<and> \<not> couldBeUTF16BE ?st'")
      case True
      then have "containsZeroByte ?st'" by (simp add: scan_step_flags)
      with True have "zeroByteScan_full buffer bytesRead (i + 1) ?st' = ?st'"
        by (intro zeroByteScan_full_absorbing) simp_all
      moreover have "zeroByteScan buffer bytesRead i st = ?st'"
        using inside True by (subst zeroByteScan.simps) (simp add: Let_def)
      moreover have "zeroByteScan_full buffer bytesRead i st
          = zeroByteScan_full buffer bytesRead (i + 1) ?st'"
        using inside by (subst zeroByteScan_full.simps) simp
      ultimately show ?thesis by simp
    next
      case False
      have "zeroByteScan buffer bytesRead i st = zeroByteScan buffer bytesRead (i + 1) ?st'"
        using inside False by (subst zeroByteScan.simps) (auto simp: Let_def)
      also have "\<dots> = zeroByteScan_full buffer bytesRead (i + 1) ?st'"
        using inside False by (intro "1.IH") auto
      also have "\<dots> = zeroByteScan_full buffer bytesRead i st"
        using inside by (subst (2) zeroByteScan_full.simps) simp
      finally show ?thesis .
    qed
  qed
qed

lemma zeroByteScan_full_flags:
  "containsZeroByte (zeroByteScan_full buffer bytesRead i st) =
     (containsZeroByte st \<or> (\<exists>j\<ge>i. inWindow bytesRead j \<and> isZeroByte buffer j))"
  "couldBeUTF16LE (zeroByteScan_full buffer bytesRead i st) =
     (couldBeUTF16LE st \<and> (\<forall>j\<ge>i. inWindow bytesRead j \<longrightarrow> (isEndian j \<longleftrightarrow> isZeroByte buffer j)))"
  "couldBeUTF16BE (zeroByteScan_full buffer bytesRead i st) =
     (couldBeUTF16BE st \<and> (\<forall>j\<ge>i. inWindow bytesRead j \<longrightarrow> (isEndian j \<longleftrightarrow> \<not> isZeroByte buffer j)))"
proof (induction buffer bytesRead i st rule: zeroByteScan_full.induct)
  case (1 buffer bytesRead i st)
  have split: "(\<exists>j\<ge>i. P j) \<longleftrightarrow> P i \<or> (\<exists>j\<ge>i + 1. P j)" for P
    by (metis Suc_eq_plus1 Suc_leI le_eq_less_or_eq le_add1 order_trans)
  have splitA: "(\<forall>j\<ge>i. P j) \<longleftrightarrow> P i \<and> (\<forall>j\<ge>i + 1. P j)" for P
    using split [of "\<lambda>j. \<not> P j"] by blast
  have out: "\<not> inWindow bytesRead j" if "\<not> inWindow bytesRead i" "j \<ge> i" for j
    using that by (auto simp: inWindow_def)
  {
    case 1
    show ?case
    proof (cases "inWindow bytesRead i")
      case True
      then show ?thesis
        using "1.IH"(1) by (subst zeroByteScan_full.simps, subst split) (auto simp: inWindow_def scan_step_flags)
    next
      case False
      then show ?thesis
        using out by (subst zeroByteScan_full.simps) (auto simp: inWindow_def)
    qed
  next
    case 2
    show ?case
    proof (cases "inWindow bytesRead i")
      case True
      then show ?thesis
        using "1.IH"(2) by (subst zeroByteScan_full.simps, subst splitA) (auto simp: inWindow_def scan_step_flags)
    next
      case False
      then show ?thesis
        using out by (subst zeroByteScan_full.simps) (auto simp: inWindow_def)
    qed
  next
    case 3
    show ?case
    proof (cases "inWindow bytesRead i")
      case True
      then show ?thesis
        using "1.IH"(3) by (subst zeroByteScan_full.simps, subst splitA) (auto simp: inWindow_def scan_step_flags)
    next
      case False
      then show ?thesis
        using out by (subst zeroByteScan_full.simps) (auto simp: inWindow_def)
    qed
  }
qed


lemma zeroByteScan_flags:
  "containsZeroByte (zeroByteScan buffer bytesRead 0 initial_flags) =
     (\<exists>j. inWindow bytesRead j \<and> isZeroByte buffer j)"
  "couldBeUTF16LE (zeroByteScan buffer bytesRead 0 initial_flags) =
     (\<forall>j. inWindow bytesRead j \<longrightarrow> (isEndian j \<longleftrightarrow> isZeroByte buffer j))"
  "couldBeUTF16BE (zeroByteScan buffer bytesRead 0 initial_flags) =
     (\<forall>j. inWindow bytesRead j \<longrightarrow> (isEndian j \<longleftrightarrow> \<not> isZeroByte buffer j))"
  by (simp_all add: zeroByteScan_eq_full zeroByteScan_full_flags initial_flags_def)

lemma isEndian_odd: "isEndian i \<longleftrightarrow> odd i"
  by (simp add: isEndian_def odd_iff_mod_2_eq_one)

lemma zeroByteHeuristic_outcome:
  assumes "enc0 \<noteq> Some UTF16le" and "enc0 \<noteq> Some UTF16be"
  shows "zeroByteHeuristic enc0 (Some buf) bytesRead =
     (if \<forall>i. inWindow bytesRead i \<longrightarrow> \<not> isZeroByte buf i then (enc0, False)
      else if \<forall>i. inWindow bytesRead i \<longrightarrow>
                (odd i \<longrightarrow> isZeroByte buf i) \<and> (even i \<longrightarrow> \<not> isZeroByte buf i)
           then (Some UTF16le, False)
      else if \<forall>i. inWindow bytesRead i \<longrightarrow>
                (even i \<longrightarrow> isZeroByte buf i) \<and> (odd i \<longrightarrow> \<not> isZeroByte buf i)
           then (Some UTF16be, False)
      else (enc0, True))"
proof -
  let ?st = "zeroByteScan buf bytesRead 0 initial_flags"
  have le: "couldBeUTF16LE ?st \<longleftrightarrow>
      (\<forall>i. inWindow bytesRead i \<longrightarrow> (odd i \<longrightarrow> isZeroByte buf i) \<and> (even i \<longrightarrow> \<not> isZeroByte buf i))"
    unfolding zeroByteScan_flags isEndian_odd by blast
  have be: "couldBeUTF16BE ?st \<longleftrightarrow>
      (\<forall>i. inWindow bytesRead i \<longrightarrow> (even i \<longrightarrow> isZeroByte buf i) \<and> (odd i \<longrightarrow> \<not> isZeroByte buf i))"
    unfolding zeroByteScan_flags isEndian_odd by blast
  have cz: "containsZeroByte ?st \<longleftrightarrow> \<not> (\<forall>i. inWindow bytesRead i \<longrightarrow> \<not> isZeroByte buf i)"
    unfolding zeroByteScan_flags by blast
  have "zeroByteHeuristic enc0 (Some buf) bytesRead = zeroByteDecision enc0 ?st"
    using assms by (simp add: zeroByteHeuristic_def)
  then show ?thesis
    unfolding zeroByteDecision_def le be cz by (simp only: if_not_P if_P split: if_split) blast
qed

lemma readUInt8_alternating:
  "readUInt8 (concat (replicate n [a, b])) i =
     (if i < 2 * n then Some (if even i then a else b) else None)"
proof (induction n arbitrary: i)
  case 0
  then show ?case by (simp add: readUInt8_def)
next
  case (Suc n)
  show ?case
  proof (cases i)
    case 0
    then show ?thesis by (simp add: readUInt8_def)
  next
    case i: (Suc j)
    show ?thesis
    proof (cases j)
      case 0
      with i show ?thesis by (simp add: readUInt8_def)
    next
      case (Suc k)
      have "readUInt8 (concat (replicate (Suc n) [a, b])) i = readUInt8 (concat (replicate n [a, b])) k"
        using i Suc by (simp add: readUInt8_def)
      then show ?thesis using Suc.IH [of k] i Suc by simp
    qed
  qed
qed

lemma isZeroByte_alternating:
  "isZeroByte (concat (replicate 300 [0x41, 0x00])) i \<longleftrightarrow> i < 600 \<and> odd i"
  by (simp add: isZeroByte_def readUInt8_alternating)

lemma alternating_600:
  "detectEncodingFromBuffer detect (Some (concat (replicate 300 [0x41, 0x00]))) 600 autoGuessEncoding
     = \<lparr>encoding = Some (Name UTF16le), seemsBinary = False\<rparr>"
proof -
  let ?buf = "concat (replicate 300 [0x41, 0x00 :: byte])"
  have bom: "detectEncodingByBOMFromBuffer (Some ?buf) 600 = None"
    by (simp add: detectEncodingByBOMFromBuffer_def readUInt8_alternating Let_def
        UTF16be_BOM_def UTF16le_BOM_def UTF8_BOM_def)
  have w1: "inWindow 600 1" by (simp add: inWindow_def ZERO_BYTE_DETECTION_BUFFER_MAX_LEN_def)
  have z1: "isZeroByte ?buf 1" by (simp add: isZeroByte_alternating)
  have some: "\<not> (\<forall>i. inWindow 600 i \<longrightarrow> \<not> isZeroByte ?buf i)"
    using w1 z1 by blast
  have le: "\<forall>i. inWindow 600 i \<longrightarrow> (odd i \<longrightarrow> isZeroByte ?buf i) \<and> (even i \<longrightarrow> \<not> isZeroByte ?buf i)"
    by (simp add: isZeroByte_alternating inWindow_def ZERO_BYTE_DETECTION_BUFFER_MAX_LEN_def)
  have "zeroByteHeuristic None (Some ?buf) 600 = (Some UTF16le, False)"
    using some le by (simp add: zeroByteHeuristic_outcome)
  then show ?thesis
    by (simp add: detectEncodingFromBuffer_def bom)
qed

subsection \<open>Heuristic and orchestrator\<close>

lemma inWindow_2: "inWindow 2 i \<longleftrightarrow> i = 0 \<or> i = 1"
  by (auto simp: inWindow_def ZERO_BYTE_DETECTION_BUFFER_MAX_LEN_def)

text \<open>
  Claim C4. For a buffer without a UTF-16 BOM, over the scanned window of the first
  \<open>min(bytesRead, 512)\<close> bytes: with no zero byte the heuristic makes no determination (the
  encoding of the BOM detector is kept, \<^verbatim>\<open>seemsBinary\<close> is false); with a zero byte, every
  odd-indexed byte zero and every even-indexed byte nonzero, the encoding is UTF-16LE; with
  every even-indexed byte zero and every odd-indexed byte nonzero, it is UTF-16BE; otherwise
  \<^verbatim>\<open>seemsBinary\<close> is true. Without guessing this is the result of
  \<^verbatim>\<open>detectEncodingFromBuffer\<close>. 600 bytes alternating \<^verbatim>\<open>41 00\<close> are detected as UTF-16LE.
\<close>

theorem zero_byte_heuristic_conclusion:
  assumes "detectEncodingByBOMFromBuffer (Some buf) bytesRead = bom"
    and "bom \<noteq> Some UTF16le" and "bom \<noteq> Some UTF16be"
  shows "zeroByteHeuristic bom (Some buf) bytesRead =
     (if \<forall>i. inWindow bytesRead i \<longrightarrow> \<not> isZeroByte buf i then (bom, False)
      else if \<forall>i. inWindow bytesRead i \<longrightarrow>
                (odd i \<longrightarrow> isZeroByte buf i) \<and> (even i \<longrightarrow> \<not> isZeroByte buf i)
           then (Some UTF16le, False)
      else if \<forall>i. inWindow bytesRead i \<longrightarrow>
                (even i \<longrightarrow> isZeroByte buf i) \<and> (odd i \<longrightarrow> \<not> isZeroByte buf i)
           then (Some UTF16be, False)
      else (bom, True))
    \<and> detectEncodingFromBuffer detect (Some buf) bytesRead False =
        \<lparr>encoding = map_option Name (fst (zeroByteHeuristic bom (Some buf) bytesRead)),
         seemsBinary = snd (zeroByteHeuristic bom (Some buf) bytesRead)\<rparr>
    \<and> detectEncodingFromBuffer detect' (Some (concat (replicate 300 [0x41, 0x00]))) 600 autoGuessEncoding =
        \<lparr>encoding = Some (Name UTF16le), seemsBinary = False\<rparr>"
proof (intro conjI)
  show "zeroByteHeuristic bom (Some buf) bytesRead =
     (if \<forall>i. inWindow bytesRead i \<longrightarrow> \<not> isZeroByte buf i then (bom, False)
      else if \<forall>i. inWindow bytesRead i \<longrightarrow>
                (odd i \<longrightarrow> isZeroByte buf i) \<and> (even i \<longrightarrow> \<not> isZeroByte buf i)
           then (Some UTF16le, False)
      else if \<forall>i. inWindow bytesRead i \<longrightarrow>
                (even i \<longrightarrow> isZeroByte buf i) \<and> (odd i \<longrightarrow> \<not> isZeroByte buf i)
           then (Some UTF16be, False)
      else (bom, True))"
    using assms(2,3) by (rule zeroByteHeuristic_outcome)
  show "detectEncodingFromBuffer detect (Some buf) bytesRead False =
        \<lparr>encoding = map_option Name (fst (zeroByteHeuristic bom (Some buf) bytesRead)),
         seemsBinary = snd (zeroByteHeuristic bom (Some buf) bytesRead)\<rparr>"
    using assms(1) by (simp add: detectEncodingFromBuffer_def split_beta)
  show "detectEncodingFromBuffer detect' (Some (concat (replicate 300 [0x41, 0x00]))) 600 autoGuessEncoding =
        \<lparr>encoding = Some (Name UTF16le), seemsBinary = False\<rparr>"
    by (rule alternating_600)
qed

text \<open>The theorem at the two bytes \<^verbatim>\<open>00 41\<close>, which are detected as UTF-16BE.\<close>

theorem zero_byte_heuristic_conclusion_witness:
  "detectEncodingByBOMFromBuffer (Some [0x00, 0x41]) 2 = None
   \<and> None \<noteq> Some UTF16le \<and> None \<noteq> Some UTF16be
   \<and> zeroByteHeuristic None (Some [0x00, 0x41]) 2 = (Some UTF16be, False)
   \<and> detectEncodingFromBuffer (constant_classifier None) (Some [0x00, 0x41]) 2 False =
        \<lparr>encoding = Some (Name UTF16be), seemsBinary = False\<rparr>"
proof -
  have bom: "detectEncodingByBOMFromBuffer (Some [0x00, 0x41]) 2 = None"
    by (simp add: detectEncodingByBOMFromBuffer_def readUInt8_def Let_def
        UTF16be_BOM_def UTF16le_BOM_def UTF8_BOM_def)
  have z: "isZeroByte [0x00, 0x41] 0" "\<not> isZeroByte [0x00, 0x41] (Suc 0)"
    by (simp_all add: isZeroByte_def readUInt8_def)
  have c1: "\<not> (\<forall>i. inWindow 2 i \<longrightarrow> \<not> isZeroByte [0x00, 0x41] i)"
    using z by (auto simp: inWindow_2)
  have c2: "\<not> (\<forall>i. inWindow 2 i \<longrightarrow>
      (odd i \<longrightarrow> isZeroByte [0x00, 0x41] i) \<and> (even i \<longrightarrow> \<not> isZeroByte [0x00, 0x41] i))"
    using z by (auto simp: inWindow_2)
  have c3: "\<forall>i. inWindow 2 i \<longrightarrow>
      (even i \<longrightarrow> isZeroByte [0x00, 0x41] i) \<and> (odd i \<longrightarrow> \<not> isZeroByte [0x00, 0x41] i)"
    using z by (auto simp: inWindow_2)
  note inst = zero_byte_heuristic_conclusion [OF bom, of "constant_classifier None"]
  have h: "zeroByteHeuristic None (Some [0x00, 0x41]) 2 = (Some UTF16be, False)"
    using inst by (simp only: if_not_P [OF c1] if_not_P [OF c2] if_P [OF c3]) simp
  have d: "detectEncodingFromBuffer (constant_classifier None) (Some [0x00, 0x41]) 2 False =
        \<lparr>encoding = Some (Name UTF16be), seemsBinary = False\<rparr>"
    using inst by (simp only: h fst_conv snd_conv) simp
  show ?thesis
    using bom h d by simp
qed

text \<open>
  Claim C6. The early exit of the scan never changes its outcome: from every index and
  every value of the flags, so in particular for the whole scan, the loop with the
  \<^verbatim>\<open>break\<close> ends with the same \<^verbatim>\<open>containsZeroByte\<close>, \<^verbatim>\<open>couldBeUTF16LE\<close> and
  \<^verbatim>\<open>couldBeUTF16BE\<close> as the loop over the full window, and hence with the same encoding and
  \<^verbatim>\<open>seemsBinary\<close>.
\<close>

theorem early_exit_preserves_outcome:
  "zeroByteScan buffer bytesRead i st = zeroByteScan_full buffer bytesRead i st
   \<and> zeroByteDecision enc0 (zeroByteScan buffer bytesRead 0 initial_flags) =
       zeroByteDecision enc0 (zeroByteScan_full buffer bytesRead 0 initial_flags)"
  by (simp add: zeroByteScan_eq_full)

lemma utf8bom_not_utf16: "UTF8_with_bom \<noteq> UTF16le" "UTF8_with_bom \<noteq> UTF16be" "UTF16le \<noteq> UTF16be"
  by (simp_all add: UTF8_with_bom_def UTF16le_def UTF16be_def)

text \<open>
  Claim C10. For a buffer that starts with the UTF-8 BOM and \<^verbatim>\<open>bytesRead >= 3\<close>, the
  encoding detected is UTF-8-with-BOM, never UTF-16LE or UTF-16BE, with or without guessing;
  \<^verbatim>\<open>seemsBinary\<close> is true exactly when the scanned window holds a zero byte, and the
  encoding is kept then.
\<close>

theorem utf8_bom_never_utf16:
  assumes "take 3 buf = [0xEF, 0xBB, 0xBF]" and "3 \<le> bytesRead"
  shows "encoding (detectEncodingFromBuffer detect (Some buf) bytesRead autoGuessEncoding) = Some (Name UTF8_with_bom)
    \<and> (seemsBinary (detectEncodingFromBuffer detect (Some buf) bytesRead autoGuessEncoding)
        \<longleftrightarrow> (\<exists>i. inWindow bytesRead i \<and> isZeroByte buf i))"
proof -
  have rd: "readUInt8 buf 0 = Some 0xEF" "readUInt8 buf (Suc 0) = Some 0xBB"
    "readUInt8 buf 2 = Some 0xBF"
    using assms(1) by (simp_all add: take3_eq)
  have bom: "detectEncodingByBOMFromBuffer (Some buf) bytesRead = Some UTF8_with_bom"
    using assms(2) by (simp add: detectEncodingByBOMFromBuffer_def rd Let_def
        UTF16be_BOM_def UTF16le_BOM_def UTF8_BOM_def)
  have w: "inWindow bytesRead 0" "inWindow bytesRead (Suc 0)"
    using assms(2) by (simp_all add: inWindow_def ZERO_BYTE_DETECTION_BUFFER_MAX_LEN_def)
  have nz: "\<not> isZeroByte buf 0" "\<not> isZeroByte buf (Suc 0)"
    using rd by (simp_all add: isZeroByte_def)
  have notle: "\<not> (\<forall>i. inWindow bytesRead i \<longrightarrow>
                (odd i \<longrightarrow> isZeroByte buf i) \<and> (even i \<longrightarrow> \<not> isZeroByte buf i))"
    using w(2) nz(2) by (auto dest!: spec [of _ "Suc 0"])
  have notbe: "\<not> (\<forall>i. inWindow bytesRead i \<longrightarrow>
                (even i \<longrightarrow> isZeroByte buf i) \<and> (odd i \<longrightarrow> \<not> isZeroByte buf i))"
    using w(1) nz(1) by (auto dest!: spec [of _ "0::nat"])
  have h: "zeroByteHeuristic (Some UTF8_with_bom) (Some buf) bytesRead =
      (Some UTF8_with_bom, \<exists>i. inWindow bytesRead i \<and> isZeroByte buf i)"
    using notle notbe by (auto simp: zeroByteHeuristic_outcome utf8bom_not_utf16)
  show ?thesis
    by (simp add: detectEncodingFromBuffer_def bom h)
qed

text \<open>The theorem at \<^verbatim>\<open>EF BB BF 00\<close>: UTF-8-with-BOM together with \<^verbatim>\<open>seemsBinary\<close>.\<close>

theorem utf8_bom_never_utf16_witness:
  "take 3 [0xEF, 0xBB, 0xBF, 0x00 :: byte] = [0xEF, 0xBB, 0xBF] \<and> (3 :: int) \<le> 4
   \<and> encoding (detectEncodingFromBuffer (constant_classifier None) (Some [0xEF, 0xBB, 0xBF, 0x00]) 4 True)
       = Some (Name UTF8_with_bom)
   \<and> seemsBinary (detectEncodingFromBuffer (constant_classifier None) (Some [0xEF, 0xBB, 0xBF, 0x00]) 4 True)"
proof -
  have t: "take 3 [0xEF, 0xBB, 0xBF, 0x00 :: byte] = [0xEF, 0xBB, 0xBF]" by simp
  have n: "(3 :: int) \<le> 4" by simp
  have w: "inWindow 4 3" by (simp add: inWindow_def ZERO_BYTE_DETECTION_BUFFER_MAX_LEN_def)
  have z: "isZeroByte [0xEF, 0xBB, 0xBF, 0x00] 3" by (simp add: isZeroByte_def readUInt8_def)
  have ex: "\<exists>i. inWindow 4 i \<and> isZeroByte [0xEF, 0xBB, 0xBF, 0x00] i"
    using w z by blast
  show ?thesis
    using utf8_bom_never_utf16 [OF t n, of "constant_classifier None" True] ex t by simp
qed

lemma utf16_bom_wins:
  assumes "detectEncodingByBOMFromBuffer buffer bytesRead = Some UTF16le
         \<or> detectEncodingByBOMFromBuffer buffer bytesRead = Some UTF16be"
  shows "zeroByteHeuristic (detectEncodingByBOMFromBuffer buffer bytesRead) buffer bytesRead
           = (detectEncodingByBOMFromBuffer buffer bytesRead, False)"
    and "detectEncodingFromBuffer detect buffer bytesRead autoGuessEncoding
           = \<lparr>encoding = map_option Name (detectEncodingByBOMFromBuffer buffer bytesRead), seemsBinary = False\<rparr>"
proof -
  show h: "zeroByteHeuristic (detectEncodingByBOMFromBuffer buffer bytesRead) buffer bytesRead
           = (detectEncodingByBOMFromBuffer buffer bytesRead, False)"
    using assms by (auto simp: zeroByteHeuristic_def split: option.split)
  show "detectEncodingFromBuffer detect buffer bytesRead autoGuessEncoding
           = \<lparr>encoding = map_option Name (detectEncodingByBOMFromBuffer buffer bytesRead), seemsBinary = False\<rparr>"
    using assms by (auto simp: detectEncodingFromBuffer_def h split: option.split)
qed

lemma no_zero_small:
  "detectEncodingFromBuffer detect (Some [0xEF, 0xBB, 0xBF, 0x68, 0x69]) 5 autoGuessEncoding
     = \<lparr>encoding = Some (Name UTF8_with_bom), seemsBinary = False\<rparr>"
proof -
  let ?buf = "[0xEF, 0xBB, 0xBF, 0x68, 0x69] :: VSBuffer"
  have bom: "detectEncodingByBOMFromBuffer (Some ?buf) 5 = Some UTF8_with_bom"
    by (simp add: detectEncodingByBOMFromBuffer_def readUInt8_def Let_def
        UTF16be_BOM_def UTF16le_BOM_def UTF8_BOM_def)
  have nz: "\<forall>i. inWindow 5 i \<longrightarrow> \<not> isZeroByte ?buf i"
    by (auto simp: isZeroByte_def readUInt8_def nth_Cons split: nat.splits)
  have "zeroByteHeuristic (Some UTF8_with_bom) (Some ?buf) 5 = (Some UTF8_with_bom, False)"
    using nz by (simp add: zeroByteHeuristic_outcome utf8bom_not_utf16)
  then show ?thesis
    by (simp add: detectEncodingFromBuffer_def bom)
qed

text \<open>
  Claim C5. \<^verbatim>\<open>detectEncodingFromBuffer\<close> is a strict precedence chain. The BOM detector
  runs first: when it finds UTF-16LE or UTF-16BE the zero-byte heuristic changes nothing and
  the result is that encoding, not binary, whatever the other bytes and the classifier are.
  Without a buffer the result is no encoding, not binary. The guesser decides exactly when
  the first two steps gave no encoding and not binary, guessing is enabled and the buffer is
  present; its answer (possibly none) on the buffer cut to \<^verbatim>\<open>bytesRead\<close> is then the
  encoding. In every other case the result is that of the first two steps. The bytes
  \<^verbatim>\<open>EF BB BF 68 69\<close> give UTF-8-with-BOM, not binary.
\<close>

theorem detection_precedence_chain:
  "(detectEncodingByBOMFromBuffer buffer bytesRead = Some UTF16le
      \<or> detectEncodingByBOMFromBuffer buffer bytesRead = Some UTF16be \<longrightarrow>
        zeroByteHeuristic (detectEncodingByBOMFromBuffer buffer bytesRead) buffer bytesRead
          = (detectEncodingByBOMFromBuffer buffer bytesRead, False)
      \<and> detectEncodingFromBuffer detect buffer bytesRead autoGuessEncoding
          = \<lparr>encoding = map_option Name (detectEncodingByBOMFromBuffer buffer bytesRead), seemsBinary = False\<rparr>)
   \<and> (buffer = None \<longrightarrow>
        detectEncodingFromBuffer detect buffer bytesRead autoGuessEncoding
          = \<lparr>encoding = None, seemsBinary = False\<rparr>)
   \<and> (\<forall>buf. buffer = Some buf \<and> autoGuessEncoding
          \<and> zeroByteHeuristic (detectEncodingByBOMFromBuffer buffer bytesRead) buffer bytesRead
              = (None, False) \<longrightarrow>
        detectEncodingFromBuffer detect buffer bytesRead autoGuessEncoding
          = \<lparr>encoding = guessEncodingByBuffer detect (slice0 buf bytesRead), seemsBinary = False\<rparr>)
   \<and> (\<not> (buffer \<noteq> None \<and> autoGuessEncoding
          \<and> zeroByteHeuristic (detectEncodingByBOMFromBuffer buffer bytesRead) buffer bytesRead
              = (None, False)) \<longrightarrow>
        detectEncodingFromBuffer detect buffer bytesRead autoGuessEncoding
          = \<lparr>encoding = map_option Name (fst (zeroByteHeuristic (detectEncodingByBOMFromBuffer buffer bytesRead) buffer bytesRead)),
             seemsBinary = snd (zeroByteHeuristic (detectEncodingByBOMFromBuffer buffer bytesRead) buffer bytesRead)\<rparr>)
   \<and> detectEncodingFromBuffer detect' (Some [0xEF, 0xBB, 0xBF, 0x68, 0x69]) 5 autoGuessEncoding'
          = \<lparr>encoding = Some (Name UTF8_with_bom), seemsBinary = False\<rparr>"
proof (intro conjI impI allI)
  assume "detectEncodingByBOMFromBuffer buffer bytesRead = Some UTF16le
      \<or> detectEncodingByBOMFromBuffer buffer bytesRead = Some UTF16be"
  then show "zeroByteHeuristic (detectEncodingByBOMFromBuffer buffer bytesRead) buffer bytesRead
          = (detectEncodingByBOMFromBuffer buffer bytesRead, False)"
    and "detectEncodingFromBuffer detect buffer bytesRead autoGuessEncoding
          = \<lparr>encoding = map_option Name (detectEncodingByBOMFromBuffer buffer bytesRead), seemsBinary = False\<rparr>"
    by (rule utf16_bom_wins)+
next
  assume "buffer = None"
  then show "detectEncodingFromBuffer detect buffer bytesRead autoGuessEncoding
          = \<lparr>encoding = None, seemsBinary = False\<rparr>"
    by (simp add: detectEncodingFromBuffer_def detectEncodingByBOMFromBuffer_def zeroByteHeuristic_def)
next
  fix buf
  assume "buffer = Some buf \<and> autoGuessEncoding
          \<and> zeroByteHeuristic (detectEncodingByBOMFromBuffer buffer bytesRead) buffer bytesRead
              = (None, False)"
  then show "detectEncodingFromBuffer detect buffer bytesRead autoGuessEncoding
          = \<lparr>encoding = guessEncodingByBuffer detect (slice0 buf bytesRead), seemsBinary = False\<rparr>"
    by (auto simp: detectEncodingFromBuffer_def)
next
  assume "\<not> (buffer \<noteq> None \<and> autoGuessEncoding
          \<and> zeroByteHeuristic (detectEncodingByBOMFromBuffer buffer bytesRead) buffer bytesRead
              = (None, False))"
  then show "detectEncodingFromBuffer detect buffer bytesRead autoGuessEncoding
          = \<lparr>encoding = map_option Name (fst (zeroByteHeuristic (detectEncodingByBOMFromBuffer buffer bytesRead) buffer bytesRead)),
             seemsBinary = snd (zeroByteHeuristic (detectEncodingByBOMFromBuffer buffer bytesRead) buffer bytesRead)\<rparr>"
    by (auto simp: detectEncodingFromBuffer_def Let_def split_beta prod_eq_iff split: option.split)
next
  show "detectEncodingFromBuffer detect' (Some [0xEF, 0xBB, 0xBF, 0x68, 0x69]) 5 autoGuessEncoding'
          = \<lparr>encoding = Some (Name UTF8_with_bom), seemsBinary = False\<rparr>"
    by (rule no_zero_small)
qed

lemma guess_Big5:
  "guessEncodingByBuffer (constant_classifier (Some (IDetectedMap (Some ''Big5'')))) buffer = Some (Name ''cp950'')"
  by (simp add: guessEncodingByBuffer_def constant_classifier_def toLowerCase_def lowerChar_def
      IGNORE_ENCODINGS_def toIconvLiteEncoding_def normalizedEncodingName_def isAlphaNumeric_def
      table_get_def JSCHARDET_TO_ICONV_ENCODINGS_def OBJECT_PROTOTYPE_MEMBERS_def Let_def)

text \<open>
  The theorem at a buffer with the UTF-16LE BOM followed by zero bytes, and at the
  BOM-less bytes \<^verbatim>\<open>68 69\<close> with and without guessing.
\<close>

theorem detection_precedence_chain_witness:
  "detectEncodingByBOMFromBuffer (Some [0xFF, 0xFE, 0x00, 0x00]) 4 = Some UTF16le
   \<and> detectEncodingFromBuffer (constant_classifier (Some (IDetectedMap (Some ''Big5''))))
        (Some [0xFF, 0xFE, 0x00, 0x00]) 4 True
       = \<lparr>encoding = Some (Name UTF16le), seemsBinary = False\<rparr>
   \<and> zeroByteHeuristic (detectEncodingByBOMFromBuffer (Some [0x68, 0x69]) 2) (Some [0x68, 0x69]) 2
       = (None, False)
   \<and> detectEncodingFromBuffer (constant_classifier (Some (IDetectedMap (Some ''Big5''))))
        (Some [0x68, 0x69]) 2 True
       = \<lparr>encoding = Some (Name ''cp950''), seemsBinary = False\<rparr>
   \<and> detectEncodingFromBuffer (constant_classifier (Some (IDetectedMap (Some ''Big5''))))
        (Some [0x68, 0x69]) 2 False
       = \<lparr>encoding = None, seemsBinary = False\<rparr>"
proof -
  let ?detect = "constant_classifier (Some (IDetectedMap (Some ''Big5'')))"
  have bom1: "detectEncodingByBOMFromBuffer (Some [0xFF, 0xFE, 0x00, 0x00]) 4 = Some UTF16le"
    by (simp add: detectEncodingByBOMFromBuffer_def readUInt8_def Let_def
        UTF16be_BOM_def UTF16le_BOM_def UTF8_BOM_def)
  have bom2: "detectEncodingByBOMFromBuffer (Some [0x68, 0x69]) 2 = None"
    by (simp add: detectEncodingByBOMFromBuffer_def readUInt8_def Let_def
        UTF16be_BOM_def UTF16le_BOM_def UTF8_BOM_def)
  have nz: "\<forall>i. inWindow 2 i \<longrightarrow> \<not> isZeroByte [0x68, 0x69] i"
    by (auto simp: inWindow_2 isZeroByte_def readUInt8_def)
  have h2: "zeroByteHeuristic None (Some [0x68, 0x69]) 2 = (None, False)"
    using nz by (simp add: zeroByteHeuristic_outcome)
  have r1: "detectEncodingFromBuffer ?detect (Some [0xFF, 0xFE, 0x00, 0x00]) 4 True
       = \<lparr>encoding = Some (Name UTF16le), seemsBinary = False\<rparr>"
    using detection_precedence_chain [of "Some [0xFF, 0xFE, 0x00, 0x00]" 4 ?detect True]
    by (simp add: bom1)
  have r2: "detectEncodingFromBuffer ?detect (Some [0x68, 0x69]) 2 True
       = \<lparr>encoding = Some (Name ''cp950''), seemsBinary = False\<rparr>"
    using detection_precedence_chain [of "Some [0x68, 0x69]" 2 ?detect True]
    by (simp add: bom2 h2 guess_Big5)
  have r3: "detectEncodingFromBuffer ?detect (Some [0x68, 0x69]) 2 False
       = \<lparr>encoding = None, seemsBinary = False\<rparr>"
    using detection_precedence_chain [of "Some [0x68, 0x69]" 2 ?detect False]
    by (simp add: bom2 h2)
  show ?thesis
    using bom1 bom2 h2 r1 r2 r3 by simp
qed

subsection \<open>Statistical guesser\<close>

lemma lowerChar_alphanumeric:
  "isAlphaNumeric c \<Longrightarrow> lowerChar c \<in> set ''abcdefghijklmnopqrstuvwxyz0123456789''"
  by (auto simp: isAlphaNumeric_def lowerChar_def)

lemma normalized_chars:
  "c \<in> set (normalizedEncodingName label) \<Longrightarrow> c \<in> set ''abcdefghijklmnopqrstuvwxyz0123456789''"
  by (auto simp: normalizedEncodingName_def toLowerCase_def dest: lowerChar_alphanumeric)

lemma normalized_no_hyphen: "CHR ''-'' \<notin> set (normalizedEncodingName label)"
  using normalized_chars [of "CHR ''-''" label] by auto

text \<open>
  A normalized name has lowercase letters and digits only, so the only member of
  \<^verbatim>\<open>Object.prototype\<close> that it can name is \<^verbatim>\<open>constructor\<close>.
\<close>

lemma lowercase_member:
  assumes "set n \<subseteq> set ''abcdefghijklmnopqrstuvwxyz0123456789''"
    and "n \<in> set OBJECT_PROTOTYPE_MEMBERS"
  shows "n = ''constructor''"
proof -
  from assms(2) have "n = ''constructor'' \<or> n = ''hasOwnProperty'' \<or> n = ''isPrototypeOf''
      \<or> n = ''propertyIsEnumerable'' \<or> n = ''toLocaleString'' \<or> n = ''toString''
      \<or> n = ''valueOf'' \<or> n = ''__defineGetter__'' \<or> n = ''__defineSetter__''
      \<or> n = ''__lookupGetter__'' \<or> n = ''__lookupSetter__'' \<or> n = ''__proto__''"
    by (simp add: OBJECT_PROTOTYPE_MEMBERS_def)
  then show ?thesis
    using assms(1) by (elim disjE) simp_all
qed

lemma normalized_member:
  "normalizedEncodingName label \<in> set OBJECT_PROTOTYPE_MEMBERS
     \<longleftrightarrow> normalizedEncodingName label = ''constructor''"
proof
  assume "normalizedEncodingName label \<in> set OBJECT_PROTOTYPE_MEMBERS"
  moreover have "set (normalizedEncodingName label) \<subseteq> set ''abcdefghijklmnopqrstuvwxyz0123456789''"
    using normalized_chars by blast
  ultimately show "normalizedEncodingName label = ''constructor''"
    by (rule lowercase_member [rotated])
next
  assume "normalizedEncodingName label = ''constructor''"
  then show "normalizedEncodingName label \<in> set OBJECT_PROTOTYPE_MEMBERS"
    by (simp add: OBJECT_PROTOTYPE_MEMBERS_def)
qed

lemma toIconvLiteEncoding_eq:
  "toIconvLiteEncoding label =
     (if normalizedEncodingName label = ''ibm866'' then Name ''cp866''
      else if normalizedEncodingName label = ''big5'' then Name ''cp950''
      else if normalizedEncodingName label = ''constructor'' then ObjectMember ''constructor''
      else Name (normalizedEncodingName label))"
  using normalized_member [of label]
  by (auto simp: toIconvLiteEncoding_def table_get_def JSCHARDET_TO_ICONV_ENCODINGS_def Let_def)

text \<open>
  The inherited member is reached: a name that is normalized to \<^verbatim>\<open>constructor\<close> is
  mapped to the \<^verbatim>\<open>constructor\<close> member of \<^verbatim>\<open>Object.prototype\<close>, not to a string.
\<close>

lemma toIconvLiteEncoding_constructor:
  "toIconvLiteEncoding ''Con-Structor'' = ObjectMember ''constructor''"
  by code_simp

lemma toIconvLiteEncoding_no_hyphen:
  "toIconvLiteEncoding label = Name e \<Longrightarrow> CHR ''-'' \<notin> set e"
  using normalized_no_hyphen [of label] by (auto simp: toIconvLiteEncoding_eq split: if_splits)

lemma guessEncodingByBuffer_label:
  assumes "detect (slice0 buffer AUTO_ENCODING_GUESS_MAX_BYTES) = Some (IDetectedMap (Some label))"
  shows "guessEncodingByBuffer detect buffer =
     (if label = [] \<or> toLowerCase label \<in> set IGNORE_ENCODINGS then None
      else Some (toIconvLiteEncoding label))"
  using assms by (simp add: guessEncodingByBuffer_def Let_def)

lemma guessEncodingByBuffer_Some:
  assumes "guessEncodingByBuffer detect buffer = Some e"
  shows "\<exists>label. detect (slice0 buffer AUTO_ENCODING_GUESS_MAX_BYTES) = Some (IDetectedMap (Some label))
           \<and> label \<noteq> [] \<and> toLowerCase label \<notin> set IGNORE_ENCODINGS \<and> e = toIconvLiteEncoding label"
proof (cases "detect (slice0 buffer AUTO_ENCODING_GUESS_MAX_BYTES)")
  case None
  with assms show ?thesis by (simp add: guessEncodingByBuffer_def)
next
  case (Some g)
  show ?thesis
  proof (cases g)
    case (IDetectedMap l)
    with Some assms show ?thesis
      by (cases l) (auto simp: guessEncodingByBuffer_def Let_def split: if_splits)
  qed
qed

text \<open>
  On a label of the classifier the test of the source, made on the lowercased label,
  agrees with the test on the normalized name, and no such label is normalized to
  \<^verbatim>\<open>constructor\<close>.
\<close>

lemma jschardet_label_facts:
  assumes "label \<in> set JSCHARDET_LABELS"
  shows "label \<noteq> []"
    and "toLowerCase label \<in> set IGNORE_ENCODINGS
           \<longleftrightarrow> normalizedEncodingName label \<in> set IGNORE_ENCODINGS"
    and "normalizedEncodingName label \<noteq> ''constructor''"
proof -
  have "\<forall>l \<in> set JSCHARDET_LABELS. l \<noteq> [] \<and>
        (toLowerCase l \<in> set IGNORE_ENCODINGS \<longleftrightarrow> normalizedEncodingName l \<in> set IGNORE_ENCODINGS) \<and>
        normalizedEncodingName l \<noteq> ''constructor''"
    by code_simp
  with assms show "label \<noteq> []"
    and "toLowerCase label \<in> set IGNORE_ENCODINGS
           \<longleftrightarrow> normalizedEncodingName label \<in> set IGNORE_ENCODINGS"
    and "normalizedEncodingName label \<noteq> ''constructor''"
    by blast+
qed



text \<open>
  Claim C7. For every result of the classifier, also for the labels \<^verbatim>\<open>ascii\<close>, \<^verbatim>\<open>utf-16\<close>
  and \<^verbatim>\<open>utf-32\<close> in any capitalization, \<^verbatim>\<open>guessEncodingByBuffer\<close> never returns \<^verbatim>\<open>ascii\<close>,
  \<^verbatim>\<open>utf-16\<close> or \<^verbatim>\<open>utf-32\<close>, and it returns none for the rejected labels. The results of the
  classifier are no result, no label, a label of \<open>JSCHARDET_LABELS\<close>, or one of the three
  ignored labels in any capitalization.
\<close>

theorem guesser_never_returns_ignored:
  assumes "\<forall>label. detect (slice0 buffer AUTO_ENCODING_GUESS_MAX_BYTES) = Some (IDetectedMap (Some label))
             \<longrightarrow> label \<in> set JSCHARDET_LABELS \<or> toLowerCase label \<in> set IGNORE_ENCODINGS"
  shows "guessEncodingByBuffer detect buffer \<noteq> Some (Name ''ascii'')
   \<and> guessEncodingByBuffer detect buffer \<noteq> Some (Name ''utf-16'')
   \<and> guessEncodingByBuffer detect buffer \<noteq> Some (Name ''utf-32'')
   \<and> (\<forall>label. detect (slice0 buffer AUTO_ENCODING_GUESS_MAX_BYTES) = Some (IDetectedMap (Some label))
          \<and> toLowerCase label \<in> set IGNORE_ENCODINGS
        \<longrightarrow> guessEncodingByBuffer detect buffer = None)"
proof (intro conjI allI impI)
  show "guessEncodingByBuffer detect buffer \<noteq> Some (Name ''ascii'')"
  proof
    assume "guessEncodingByBuffer detect buffer = Some (Name ''ascii'')"
    then obtain label where l:
      "detect (slice0 buffer AUTO_ENCODING_GUESS_MAX_BYTES) = Some (IDetectedMap (Some label))"
      "toLowerCase label \<notin> set IGNORE_ENCODINGS" "Name ''ascii'' = toIconvLiteEncoding label"
      using guessEncodingByBuffer_Some by blast
    from l(3) have n: "normalizedEncodingName label = ''ascii''"
      by (simp add: toIconvLiteEncoding_eq split: if_splits)
    from assms l(1,2) have "label \<in> set JSCHARDET_LABELS" by blast
    then have "toLowerCase label \<in> set IGNORE_ENCODINGS
        \<longleftrightarrow> normalizedEncodingName label \<in> set IGNORE_ENCODINGS"
      by (rule jschardet_label_facts)
    with n l(2) show False by (simp add: IGNORE_ENCODINGS_def)
  qed
  show "guessEncodingByBuffer detect buffer \<noteq> Some (Name ''utf-16'')"
  proof
    assume "guessEncodingByBuffer detect buffer = Some (Name ''utf-16'')"
    then obtain label where "toIconvLiteEncoding label = Name ''utf-16''"
      using guessEncodingByBuffer_Some by metis
    then show False using toIconvLiteEncoding_no_hyphen by fastforce
  qed
  show "guessEncodingByBuffer detect buffer \<noteq> Some (Name ''utf-32'')"
  proof
    assume "guessEncodingByBuffer detect buffer = Some (Name ''utf-32'')"
    then obtain label where "toIconvLiteEncoding label = Name ''utf-32''"
      using guessEncodingByBuffer_Some by metis
    then show False using toIconvLiteEncoding_no_hyphen by fastforce
  qed
next
  fix label
  assume "detect (slice0 buffer AUTO_ENCODING_GUESS_MAX_BYTES) = Some (IDetectedMap (Some label))
          \<and> toLowerCase label \<in> set IGNORE_ENCODINGS"
  then show "guessEncodingByBuffer detect buffer = None"
    by (simp add: guessEncodingByBuffer_label)
qed

text \<open>
  The theorem at the answers \<^verbatim>\<open>ASCII\<close> and \<^verbatim>\<open>Utf-32\<close>, which are rejected, and at
  \<^verbatim>\<open>windows-1252\<close>, which is returned normalized.
\<close>

theorem guesser_never_returns_ignored_witness:
  "toLowerCase ''ASCII'' \<in> set IGNORE_ENCODINGS \<and> toLowerCase ''Utf-32'' \<in> set IGNORE_ENCODINGS
   \<and> ''windows-1252'' \<in> set JSCHARDET_LABELS
   \<and> guessEncodingByBuffer (constant_classifier (Some (IDetectedMap (Some ''ASCII'')))) [] = None
   \<and> guessEncodingByBuffer (constant_classifier (Some (IDetectedMap (Some ''Utf-32'')))) [] = None
   \<and> guessEncodingByBuffer (constant_classifier (Some (IDetectedMap (Some ''windows-1252'')))) []
       \<noteq> Some (Name ''ascii'')"
proof -
  have a: "toLowerCase ''ASCII'' \<in> set IGNORE_ENCODINGS" "toLowerCase ''Utf-32'' \<in> set IGNORE_ENCODINGS"
    by (simp_all add: toLowerCase_def lowerChar_def IGNORE_ENCODINGS_def)
  have w: "''windows-1252'' \<in> set JSCHARDET_LABELS"
    by (simp add: JSCHARDET_LABELS_def)
  have d: "constant_classifier (Some (IDetectedMap (Some l))) b = Some (IDetectedMap (Some l))" for l b
    by (simp add: constant_classifier_def)
  have h1: "\<forall>label. constant_classifier (Some (IDetectedMap (Some ''ASCII'')))
                (slice0 [] AUTO_ENCODING_GUESS_MAX_BYTES) = Some (IDetectedMap (Some label))
             \<longrightarrow> label \<in> set JSCHARDET_LABELS \<or> toLowerCase label \<in> set IGNORE_ENCODINGS"
    using a(1) by (simp add: d)
  have h2: "\<forall>label. constant_classifier (Some (IDetectedMap (Some ''Utf-32'')))
                (slice0 [] AUTO_ENCODING_GUESS_MAX_BYTES) = Some (IDetectedMap (Some label))
             \<longrightarrow> label \<in> set JSCHARDET_LABELS \<or> toLowerCase label \<in> set IGNORE_ENCODINGS"
    using a(2) by (simp add: d)
  have h3: "\<forall>label. constant_classifier (Some (IDetectedMap (Some ''windows-1252'')))
                (slice0 [] AUTO_ENCODING_GUESS_MAX_BYTES) = Some (IDetectedMap (Some label))
             \<longrightarrow> label \<in> set JSCHARDET_LABELS \<or> toLowerCase label \<in> set IGNORE_ENCODINGS"
    using w by (simp add: d)
  show ?thesis
    using
      guesser_never_returns_ignored
        [of "constant_classifier (Some (IDetectedMap (Some ''ASCII'')))" "[]", OF h1]
      guesser_never_returns_ignored
        [of "constant_classifier (Some (IDetectedMap (Some ''Utf-32'')))" "[]", OF h2]
      guesser_never_returns_ignored
        [of "constant_classifier (Some (IDetectedMap (Some ''windows-1252'')))" "[]", OF h3]
      a w d
    by blast
qed

subsection \<open>Encode stream adapter\<close>

lemma encode_reads_done: "es_done s \<Longrightarrow> encode_reads ic n s = replicate n None"
  by (induction n) (simp_all add: encode_read_def)

lemma encode_read_empty_addBOM:
  assumes "es_readable s = []" and "\<not> es_done s" and "es_bytesRead s = 0"
    and "addBOM_requested (es_options s)"
  shows "encode_read ic s =
     (if es_encoding s = UTF8 \<or> es_encoding s = UTF8_with_bom then Some UTF8_BOM
      else if es_encoding s = UTF16be then Some UTF16be_BOM
      else if es_encoding s = UTF16le then Some UTF16le_BOM
      else (case encoder_end ic (es_encoder s) of
              Some l \<Rightarrow> if length l > 0 then Some l else None
            | None \<Rightarrow> None),
      s\<lparr>es_done := True\<rparr>)"
  using assms by (simp add: encode_read_def Let_def)

lemma encode_reads_empty_addBOM:
  assumes "enc \<in> {UTF8, UTF8_with_bom, UTF16be, UTF16le}"
  shows "encode_reads ic (Suc n) (toEncodeReadable ic [] enc (Some \<lparr>addBOM = Some True\<rparr>)) =
     Some (if enc = UTF8 \<or> enc = UTF8_with_bom then UTF8_BOM
           else if enc = UTF16be then UTF16be_BOM else UTF16le_BOM) # replicate n None"
proof -
  let ?s = "toEncodeReadable ic [] enc (Some \<lparr>addBOM = Some True\<rparr>)"
  have "encode_read ic ?s =
     (Some (if enc = UTF8 \<or> enc = UTF8_with_bom then UTF8_BOM
           else if enc = UTF16be then UTF16be_BOM else UTF16le_BOM), ?s\<lparr>es_done := True\<rparr>)"
    using assms by (subst encode_read_empty_addBOM) (auto simp: toEncodeReadable_def addBOM_requested_def)
  then show ?thesis
    by (simp add: encode_reads_done)
qed

lemma utf_labels_distinct:
  "UTF16le \<noteq> UTF8" "UTF16le \<noteq> UTF8_with_bom" "UTF16le \<noteq> UTF16be"
  "UTF16be \<noteq> UTF8" "UTF16be \<noteq> UTF8_with_bom"
  by (simp_all add: UTF8_def UTF8_with_bom_def UTF16le_def UTF16be_def)

text \<open>
  Claim C8. For a text source that yields no chunks and \<^verbatim>\<open>addBOM = true\<close>, the readable
  of \<^verbatim>\<open>toEncodeReadable\<close> yields exactly the BOM of the target and then null on every
  further read: \<^verbatim>\<open>FF FE\<close> for UTF-16LE, \<^verbatim>\<open>FE FF\<close> for UTF-16BE, \<^verbatim>\<open>EF BB BF\<close> for UTF-8
  and UTF-8-with-BOM. This holds for every encoder: the BOM is made by the adapter.
\<close>

theorem empty_source_addBOM_yields_exact_BOM:
  "encode_reads ic (Suc n) (toEncodeReadable ic [] UTF16le (Some \<lparr>addBOM = Some True\<rparr>))
     = Some [0xFF, 0xFE] # replicate n None
   \<and> encode_reads ic (Suc n) (toEncodeReadable ic [] UTF16be (Some \<lparr>addBOM = Some True\<rparr>))
     = Some [0xFE, 0xFF] # replicate n None
   \<and> encode_reads ic (Suc n) (toEncodeReadable ic [] UTF8 (Some \<lparr>addBOM = Some True\<rparr>))
     = Some [0xEF, 0xBB, 0xBF] # replicate n None
   \<and> encode_reads ic (Suc n) (toEncodeReadable ic [] UTF8_with_bom (Some \<lparr>addBOM = Some True\<rparr>))
     = Some [0xEF, 0xBB, 0xBF] # replicate n None"
  by (simp add: encode_reads_empty_addBOM utf_labels_distinct UTF8_BOM_def UTF16be_BOM_def
      UTF16le_BOM_def del: encode_reads.simps)

subsection \<open>Decode stream adapter\<close>

text \<open>
  Claim C1 says that the detection threshold is \<^verbatim>\<open>options.minBytesRequiredForDetection\<close>
  whenever it is supplied, and otherwise 4096 with guessing and 512 without. The code
  evaluated: a supplied 100 (without guessing) gives the threshold 4096, so a chunk of 100
  bytes does not start the detection; a supplied 0 (with guessing) gives 512. In general a
  supplied value only selects between the two constants, by being zero or not; the part of
  the claim about an omitted value holds.
\<close>

theorem toDecodeStream_threshold_evaluated:
  "toDecodeStream_minBytes
     \<lparr>guessEncoding = False, minBytesRequiredForDetection = Some 100, overwriteEncoding = hook\<rparr> = 4096
   \<and> snd (onData_buffering
            \<lparr>guessEncoding = False, minBytesRequiredForDetection = Some 100, overwriteEncoding = hook\<rparr>
            \<lparr>bufferedChunks = [], bytesBuffered = 0\<rparr> (replicate 100 0x41)) = False
   \<and> toDecodeStream_minBytes
     \<lparr>guessEncoding = True, minBytesRequiredForDetection = Some 0, overwriteEncoding = hook\<rparr> = 512
   \<and> toDecodeStream_minBytes options =
       (if (case minBytesRequiredForDetection options of
              Some n \<Rightarrow> n \<noteq> 0
            | None \<Rightarrow> guessEncoding options)
        then AUTO_ENCODING_GUESS_MIN_BYTES else NO_ENCODING_GUESS_MIN_BYTES)"
  by (simp add: toDecodeStream_minBytes_def onData_buffering_def nullish_coalesce_def
      AUTO_ENCODING_GUESS_MIN_BYTES_def NO_ENCODING_GUESS_MIN_BYTES_def split: option.split)

end
